theory Spec2Isabelle
  imports Main
begin

section \<open>The JavaScript values the program computes with\<close>

text \<open>
  A JavaScript string is a sequence of code units; a \<^typ>\<open>char\<close> stands for a code unit
  below 256, which covers the digits and every separator of a printed bank slip number.
  The regular expression class \<^verbatim>\<open>\d\<close> matches exactly the ten characters 0 to 9.
\<close>

definition is_digit :: "char \<Rightarrow> bool" where
  "is_digit c = (48 \<le> (of_char c :: nat) \<and> (of_char c :: nat) \<le> 57)"

definition digit_val :: "char \<Rightarrow> nat" where
  "digit_val c = of_char c - 48"

text \<open>
  White space of the string-to-number conversion, among the code units below 256:
  TAB, LF, VT, FF, CR, SP and NBSP.
\<close>

definition is_space :: "char \<Rightarrow> bool" where
  "is_space c = ((of_char c :: nat) \<in> {9, 10, 11, 12, 13, 32, 160})"

text \<open>
  A number is \<open>NaN\<close> or an integer. Every number this program computes from digit data
  is an integer far below \<open>2 ^ 53\<close>, where the arithmetic of doubles is exact.
\<close>

datatype number = NaN | Fin int

fun js_add :: "number \<Rightarrow> number \<Rightarrow> number" where
  "js_add (Fin a) (Fin b) = Fin (a + b)"
| "js_add _ _ = NaN"

fun js_sub :: "number \<Rightarrow> number \<Rightarrow> number" where
  "js_sub (Fin a) (Fin b) = Fin (a - b)"
| "js_sub _ _ = NaN"

fun js_mul :: "number \<Rightarrow> number \<Rightarrow> number" where
  "js_mul (Fin a) (Fin b) = Fin (a * b)"
| "js_mul _ _ = NaN"

text \<open>
  The operator \<^verbatim>\<open>%\<close> truncates: the result has the sign of the dividend, and a zero
  divisor gives \<open>NaN\<close>.
\<close>

fun js_rem :: "number \<Rightarrow> number \<Rightarrow> number" where
  "js_rem (Fin a) (Fin b) = (if b = 0 then NaN else Fin (sgn a * (\<bar>a\<bar> mod \<bar>b\<bar>)))"
| "js_rem _ _ = NaN"

text \<open>\<^verbatim>\<open>x || y\<close> on numbers: \<open>y\<close> when \<open>x\<close> is falsy, that is \<open>0\<close> or \<open>NaN\<close>.\<close>

definition js_or :: "number \<Rightarrow> number \<Rightarrow> number" where
  "js_or x y = (if x = NaN \<or> x = Fin 0 then y else x)"

function digits_of_nat :: "nat \<Rightarrow> string" where
  "digits_of_nat n =
     (if n < 10 then [char_of (48 + n)]
      else digits_of_nat (n div 10) @ [char_of (48 + n mod 10)])"
  by pat_completeness auto
termination
  by (relation "measure (\<lambda>n. n)") auto

declare digits_of_nat.simps [simp del]

text \<open>\<^verbatim>\<open>Number.prototype.toString()\<close>.\<close>

fun number_to_string :: "number \<Rightarrow> string" where
  "number_to_string NaN = ''NaN''"
| "number_to_string (Fin n) =
     (if n < 0 then CHR ''-'' # digits_of_nat (nat (- n)) else digits_of_nat (nat n))"

text \<open>The decimal value of a sequence of digit characters, the empty one being 0.\<close>

definition dec_value :: "string \<Rightarrow> nat" where
  "dec_value s = foldl (\<lambda>acc c. 10 * acc + digit_val c) 0 s"

text \<open>
  The conversion of a string to a number, for the strings this program converts:
  a sequence of decimal digits (the empty string is 0). White space, signs, fractions,
  exponents and the other literal forms of JavaScript are not modelled here; a string
  holding anything but digits is \<open>NaN\<close> in this model. No such string reaches the
  conversion from a constructed bank slip.
\<close>

definition string_to_number :: "string \<Rightarrow> number" where
  "string_to_number s = (if list_all is_digit s then Fin (int (dec_value s)) else NaN)"

text \<open>
  An array element is a one-character string (what \<^verbatim>\<open>split('')\<close> produces) or a number.
\<close>

datatype element = Chr char | Num number

text \<open>
  The conversion the multiplication applies to an element: a digit character is its
  value, a white-space character is 0, any other character is \<open>NaN\<close>.
\<close>

fun to_number :: "element \<Rightarrow> number" where
  "to_number (Num n) = n"
| "to_number (Chr c) =
     (if is_digit c then Fin (int (digit_val c))
      else if is_space c then Fin 0
      else NaN)"

fun element_to_string :: "element \<Rightarrow> string" where
  "element_to_string (Chr c) = [c]"
| "element_to_string (Num n) = number_to_string n"

subsection \<open>Arrays live in a store\<close>

text \<open>
  Arrays are objects: a variable holds the address of an array, and two variables can
  hold the same address. The store maps every address to the contents of its array;
  the addresses below \<open>next_addr\<close> are the allocated ones.
\<close>

type_synonym addr = nat

record heap =
  arrays :: "addr \<Rightarrow> element list"
  next_addr :: addr

definition alloc :: "element list \<Rightarrow> heap \<Rightarrow> addr \<times> heap" where
  "alloc xs h =
     (next_addr h, h\<lparr>arrays := (arrays h)(next_addr h := xs), next_addr := Suc (next_addr h)\<rparr>)"

text \<open>\<^verbatim>\<open>s.split('')\<close>: a new array of the characters of \<open>s\<close>.\<close>

definition split_chars :: "string \<Rightarrow> heap \<Rightarrow> addr \<times> heap" where
  "split_chars s h = alloc (map Chr s) h"

text \<open>\<^verbatim>\<open>a.reverse()\<close> reverses the array in place.\<close>

definition array_reverse :: "addr \<Rightarrow> heap \<Rightarrow> heap" where
  "array_reverse a h = h\<lparr>arrays := (arrays h)(a := rev (arrays h a))\<rparr>"

text \<open>
  \<^verbatim>\<open>a.splice(start, count)\<close> for \<open>start, count \<ge> 0\<close>: removes \<open>count\<close> elements from
  index \<open>start\<close> in place (fewer when the array ends before) and returns a new array of
  the removed elements.
\<close>

definition array_splice :: "addr \<Rightarrow> nat \<Rightarrow> nat \<Rightarrow> heap \<Rightarrow> addr \<times> heap" where
  "array_splice a start count h =
     (let xs = arrays h a;
          removed = take count (drop start xs);
          h1 = h\<lparr>arrays := (arrays h)(a := take start xs @ drop (start + count) xs)\<rparr>
      in alloc removed h1)"

text \<open>\<^verbatim>\<open>Array.prototype.toString()\<close>: the elements' strings joined by commas.\<close>

fun join_comma :: "string list \<Rightarrow> string" where
  "join_comma [] = []"
| "join_comma [s] = s"
| "join_comma (s # t # ss) = s @ '','' @ join_comma (t # ss)"

definition array_to_string :: "addr \<Rightarrow> heap \<Rightarrow> string" where
  "array_to_string a h = join_comma (map element_to_string (arrays h a))"

section \<open>modulo11\<close>

text \<open>
  The loop of \<^verbatim>\<open>modulo11\<close>:
  \<^verbatim>\<open>for (let i = 0; i < digits.length; i += 1) sum += ((i % 8) + 2) * digits[i];\<close>
\<close>

function sum_loop :: "element list \<Rightarrow> nat \<Rightarrow> number \<Rightarrow> number" where
  "sum_loop digits i acc =
     (if i < length digits
      then sum_loop digits (i + 1)
             (js_add acc (js_mul (Fin (int ((i mod 8) + 2))) (to_number (digits ! i))))
      else acc)"
  by pat_completeness auto
termination
  by (relation "measure (\<lambda>(digits, i, acc). length digits - i)") auto

declare sum_loop.simps [simp del]

text \<open>
  The argument of \<^verbatim>\<open>modulo11\<close> is a string or (the address of) an array.
\<close>

datatype argument = JString string | JArray addr

text \<open>
  \<^verbatim>\<open>modulo11(number)\<close>. For a string, \<open>digits\<close> is a new array; for an array,
  \<open>digits\<close> is the caller's array itself, and \<^verbatim>\<open>digits.reverse()\<close> works on it.
  The result is the returned number with the store after the call.
\<close>

definition modulo11 :: "argument \<Rightarrow> heap \<Rightarrow> number \<times> heap" where
  "modulo11 number h =
     (let (digits, h1) = (case number of JString s \<Rightarrow> split_chars s h | JArray a \<Rightarrow> (a, h));
          h2 = array_reverse digits h1;
          acc = sum_loop (arrays h2 digits) 0 (Fin 0)
      in (js_or (js_rem (js_sub (Fin 11) (js_rem acc (Fin 11))) (Fin 10)) (Fin 1), h2))"

text \<open>
  The checksum as the specification words it, on a sequence of single-digit integers:
  reverse, weight position \<open>i\<close> with \<open>(i mod 8) + 2\<close>, sum the products, take
  \<open>(11 - (sum mod 11)) mod 10\<close>, and report 1 for 0.
\<close>

definition modulo11Digit_spec :: "int list \<Rightarrow> int" where
  "modulo11Digit_spec d =
     (let r = rev d;
          s = (\<Sum>i < length r. (r ! i) * int ((i mod 8) + 2));
          v = (11 - (s mod 11)) mod 10
      in if v = 0 then 1 else v)"

section \<open>The class Boleto\<close>

record boleto =
  bankSlipNumber :: string

datatype js_error = Error string

subsection \<open>The regular expressions\<close>

text \<open>
  The two anchored patterns of the class are sequences of fixed-width digit groups:
  \<open>Cap n\<close> is the capturing \<^verbatim>\<open>(\d{n})\<close>, \<open>Skip n\<close> the plain \<^verbatim>\<open>\d{n}\<close>. Matching
  \<^verbatim>\<open>^...$\<close> against a string returns the captured groups in order, or \<open>None\<close> when
  the string does not match.
\<close>

datatype piece = Cap nat | Skip nat

fun match_pieces :: "piece list \<Rightarrow> string \<Rightarrow> string list option" where
  "match_pieces [] s = (if s = [] then Some [] else None)"
| "match_pieces (Cap n # ps) s =
     (if n \<le> length s \<and> list_all is_digit (take n s)
      then (case match_pieces ps (drop n s) of
              None \<Rightarrow> None
            | Some gs \<Rightarrow> Some (take n s # gs))
      else None)"
| "match_pieces (Skip n # ps) s =
     (if n \<le> length s \<and> list_all is_digit (take n s)
      then match_pieces ps (drop n s)
      else None)"

text \<open>
  A replacement string is a sequence of group references \<^verbatim>\<open>$n\<close> and literal text.
  A reference to a group the pattern does not have stays as it is written.
\<close>

datatype template_item = Grp nat | Lit string

fun expand :: "template_item list \<Rightarrow> string list \<Rightarrow> string" where
  "expand [] gs = []"
| "expand (Lit t # ts) gs = t @ expand ts gs"
| "expand (Grp n # ts) gs =
     (if 1 \<le> n \<and> n \<le> length gs then gs ! (n - 1) else CHR ''$'' # digits_of_nat n)
     @ expand ts gs"

text \<open>
  \<^verbatim>\<open>s.replace(/^...$/, template)\<close>: the match is the whole string, so the result is
  the expanded template; a string that does not match is returned unchanged.
\<close>

definition replace_anchored :: "piece list \<Rightarrow> template_item list \<Rightarrow> string \<Rightarrow> string" where
  "replace_anchored ps ts s =
     (case match_pieces ps s of None \<Rightarrow> s | Some gs \<Rightarrow> expand ts gs)"

text \<open>\<^verbatim>\<open>s.replace(/[^\d]/g, '')\<close> deletes every character that is not a digit.\<close>

definition strip_non_digits :: "string \<Rightarrow> string" where
  "strip_non_digits s = filter is_digit s"

text \<open>
  \<^verbatim>\<open>s.replace(pat, rep)\<close> with a string pattern replaces its first occurrence
  (\<open>rep\<close> without \<^verbatim>\<open>$\<close>).
\<close>

fun replace_first :: "string \<Rightarrow> string \<Rightarrow> string \<Rightarrow> string" where
  "replace_first pat rep [] = (if pat = [] then rep else [])"
| "replace_first pat rep (c # cs) =
     (if take (length pat) (c # cs) = pat then rep @ drop (length pat) (c # cs)
      else c # replace_first pat rep cs)"

text \<open>\<^verbatim>\<open>s.substr(start, len)\<close> and \<^verbatim>\<open>s[i]\<close> (\<open>None\<close> is \<^verbatim>\<open>undefined\<close>).\<close>

definition substr :: "string \<Rightarrow> nat \<Rightarrow> nat \<Rightarrow> string" where
  "substr s start len = take len (drop start s)"

definition char_at :: "string \<Rightarrow> nat \<Rightarrow> char option" where
  "char_at s i = (if i < length s then Some (s ! i) else None)"

subsection \<open>barcode, valid and the constructor\<close>

definition barcode :: "boleto \<Rightarrow> string" where
  "barcode this =
     replace_anchored
       [Cap 4, Cap 5, Skip 1, Cap 10, Skip 1, Cap 10, Skip 1, Cap 15]
       [Grp 1, Grp 5, Grp 2, Grp 3, Grp 4]
       (bankSlipNumber this)"

text \<open>
  \<^verbatim>\<open>valid()\<close> returns its result with the store after the call: the two arrays it
  creates are new ones. It assigns no field of \<open>this\<close>.
\<close>

definition valid :: "boleto \<Rightarrow> heap \<Rightarrow> bool \<times> heap" where
  "valid this h =
     (if length (bankSlipNumber this) \<noteq> 47 then (False, h)
      else
        let (barcodeDigits, h1) = split_chars (barcode this) h;
            (checksum, h2) = array_splice barcodeDigits 4 1 h1;
            (m, h3) = modulo11 (JArray barcodeDigits) h2
        in (number_to_string m = array_to_string checksum h3, h3))"

text \<open>
  The constructor: \<open>Inl\<close> is the thrown error, \<open>Inr\<close> the constructed object.
\<close>

definition new_Boleto :: "string \<Rightarrow> heap \<Rightarrow> (js_error + boleto) \<times> heap" where
  "new_Boleto input h =
     (let this = \<lparr>bankSlipNumber = strip_non_digits input\<rparr>;
          (ok, h1) = valid this h
      in if \<not> ok then (Inl (Error ''Invalid bank slip number''), h1)
         else (Inr this, h1))"

subsection \<open>prettyNumber\<close>

definition prettyNumber :: "boleto \<Rightarrow> string" where
  "prettyNumber this =
     replace_anchored
       [Cap 5, Cap 5, Cap 5, Cap 6, Cap 5, Cap 6, Cap 1, Cap 14]
       [Grp 1, Lit ''.'', Grp 2, Lit '' '', Grp 3, Lit ''.'', Grp 4, Lit '' '',
        Grp 5, Lit ''.'', Grp 6, Lit '' '', Grp 7, Lit '' '', Grp 8]
       (bankSlipNumber this)"

subsection \<open>currency, amount and prettyAmount\<close>

record currency_info =
  code :: string
  symbol :: string
  decimal :: string

text \<open>\<^verbatim>\<open>currency()\<close> returns an object or the string \<^verbatim>\<open>'Unknown'\<close>.\<close>

datatype currency_result = CurrencyObject currency_info | CurrencyString string

definition currency :: "boleto \<Rightarrow> currency_result" where
  "currency this =
     (if char_at (barcode this) 3 = Some (CHR ''9'')
      then CurrencyObject \<lparr>code = ''BRL'', symbol = ''R$'', decimal = '',''\<rparr>
      else CurrencyString ''Unknown'')"

text \<open>
  \<^verbatim>\<open>(x / 100.0).toFixed(2)\<close> for an integer \<open>x\<close>. The quotient is the double nearest to
  \<open>x / 100\<close>; for \<open>\<bar>x\<bar> < 10 ^ 10\<close> it is within \<open>10 ^ 8 / 2 ^ 53\<close> of \<open>x / 100\<close>, so the
  integer \<open>n\<close> with \<open>n / 100\<close> closest to it, which \<^verbatim>\<open>toFixed(2)\<close> prints, is \<open>x\<close>:
  the integer part of \<open>x / 100\<close>, a point, and the two digits of the hundredths.
\<close>

definition two_digits :: "nat \<Rightarrow> string" where
  "two_digits n = [char_of (48 + (n div 10) mod 10), char_of (48 + n mod 10)]"

fun div100_to_fixed2 :: "number \<Rightarrow> string" where
  "div100_to_fixed2 NaN = ''NaN''"
| "div100_to_fixed2 (Fin x) =
     (if x < 0 then ''-'' else '''')
     @ digits_of_nat (nat \<bar>x\<bar> div 100) @ ''.'' @ two_digits (nat \<bar>x\<bar> mod 100)"

definition amount :: "boleto \<Rightarrow> string" where
  "amount this = div100_to_fixed2 (string_to_number (substr (barcode this) 9 10))"

text \<open>
  \<^verbatim>\<open>prettyAmount()\<close>. A property read from a string is \<^verbatim>\<open>undefined\<close>, which the
  template and \<^verbatim>\<open>replace\<close> print as the word; \<^verbatim>\<open>currency()\<close> returns no string but
  \<^verbatim>\<open>'Unknown'\<close>, so that branch is never taken.
\<close>

definition prettyAmount :: "boleto \<Rightarrow> string" where
  "prettyAmount this =
     (case currency this of
        CurrencyString u \<Rightarrow>
          if u = ''Unknown'' then amount this
          else ''undefined'' @ '' '' @ replace_first ''.'' ''undefined'' (amount this)
      | CurrencyObject cur \<Rightarrow>
          symbol cur @ '' '' @ replace_first ''.'' (decimal cur) (amount this))"

subsection \<open>expirationDate\<close>

text \<open>
  A \<^verbatim>\<open>Date\<close> holds a time value: milliseconds since 1970-01-01T00:00:00Z, or \<open>NaN\<close>.
  The day number of a calendar date follows the language definition (\<open>DayFromYear\<close>,
  \<open>MakeDay\<close>, \<open>MakeDate\<close>); months count from 1 here.
\<close>

datatype js_date = Date number

definition msPerDay :: int where
  "msPerDay = 86400000"

definition day_from_year :: "int \<Rightarrow> int" where
  "day_from_year y =
     365 * (y - 1970) + (y - 1969) div 4 - (y - 1901) div 100 + (y - 1601) div 400"

definition leap_year :: "int \<Rightarrow> bool" where
  "leap_year y = (y mod 4 = 0 \<and> (y mod 100 \<noteq> 0 \<or> y mod 400 = 0))"

definition days_in_month :: "int \<Rightarrow> nat \<Rightarrow> int" where
  "days_in_month y m =
     (if m = 2 then (if leap_year y then 29 else 28)
      else if m \<in> {4, 6, 9, 11} then 30 else 31)"

definition days_before_month :: "int \<Rightarrow> nat \<Rightarrow> int" where
  "days_before_month y m = (\<Sum>k \<leftarrow> [1 ..< m]. days_in_month y k)"

definition utc_time :: "int \<Rightarrow> nat \<Rightarrow> int \<Rightarrow> int" where
  "utc_time y m d = (day_from_year y + days_before_month y m + d - 1) * msPerDay"

text \<open>
  \<^verbatim>\<open>new Date(s)\<close> for a date-only string \<^verbatim>\<open>YYYY-MM-DD\<close>: midnight UTC of that day.
  Other formats are not modelled (\<open>NaN\<close> here).
\<close>

definition date_parse :: "string \<Rightarrow> number" where
  "date_parse s =
     (if length s = 10 \<and> s ! 4 = CHR ''-'' \<and> s ! 7 = CHR ''-''
         \<and> list_all is_digit (take 4 s) \<and> list_all is_digit (substr s 5 2)
         \<and> list_all is_digit (substr s 8 2)
      then
        let y = int (dec_value (take 4 s));
            m = dec_value (substr s 5 2);
            d = int (dec_value (substr s 8 2))
        in if 1 \<le> m \<and> m \<le> 12 \<and> 1 \<le> d \<and> d \<le> days_in_month y m
           then Fin (utc_time y m d) else NaN
      else NaN)"

text \<open>\<^verbatim>\<open>new Date(t)\<close> clips the time value to the range of dates.\<close>

definition time_clip :: "number \<Rightarrow> number" where
  "time_clip t =
     (case t of NaN \<Rightarrow> NaN
      | Fin v \<Rightarrow> if \<bar>v\<bar> > 8640000000000000 then NaN else Fin v)"

definition expirationDate :: "boleto \<Rightarrow> js_date" where
  "expirationDate this =
     (let refDate = date_parse ''1997-10-07'';
          days = substr (barcode this) 5 4
      in Date (time_clip (js_add refDate (js_mul (string_to_number days) (Fin 86400000)))))"

section \<open>Concrete stores and the claims' own wording\<close>

text \<open>The store of a program that has not created any array yet.\<close>

definition empty_heap :: heap where
  "empty_heap = \<lparr>arrays = (\<lambda>_. []), next_addr = 0\<rparr>"

text \<open>The store after a program has created one array, which is at address 0.\<close>

definition one_array :: "element list \<Rightarrow> heap" where
  "one_array xs = snd (alloc xs empty_heap)"

text \<open>
  A bank slip number with a correct checksum digit, printed
  \<^verbatim>\<open>34195.00008 01233.203189 64221.470004 5 84410000002000\<close>, without its separators.
\<close>

definition example_number :: string where
  "example_number = ''34195000080123320318964221470004584410000002000''"

text \<open>
  The slicing of the printed number as the specification words it for \<open>toBarcode\<close>:
  widths 4, 1, 5, 1, 10, 1, 10, 1, 15, read as A, skip, B, skip, C, skip, D, skip, E,
  reassembled as A + E + B + C + D.
\<close>

definition toBarcode_claimed :: "string \<Rightarrow> string" where
  "toBarcode_claimed s =
     (let A = substr s 0 4; B = substr s 5 5; C = substr s 11 10;
          D = substr s 22 10; E = substr s 33 15
      in A @ E @ B @ C @ D)"

text \<open>The separators of the pretty-printed number: the point and the space.\<close>

definition is_separator :: "char \<Rightarrow> bool" where
  "is_separator c = (c = CHR ''.'' \<or> c = CHR '' '')"

text \<open>
  Three more bank slip numbers with a correct checksum digit: the example number with
  currency digit 8, with due-date offset 0000, and with due-date offset 0001.
\<close>

definition currency_8_number :: string where
  "currency_8_number = ''34185000080123320318964221470004384410000002000''"

definition offset_0000_number :: string where
  "offset_0000_number = ''34195000080123320318964221470004500000000002000''"

definition offset_0001_number :: string where
  "offset_0001_number = ''34195000080123320318964221470004100010000002000''"

text \<open>
  Calendar dates \<open>(year, month, day)\<close>, the day after a date, and the time value of a
  date's midnight in UTC. The date \<open>n\<close> days after \<open>d\<close> is \<open>(next_day ^^ n) d\<close>.
\<close>

definition valid_date :: "int \<times> nat \<times> int \<Rightarrow> bool" where
  "valid_date = (\<lambda>(y, m, d). 1 \<le> m \<and> m \<le> 12 \<and> 1 \<le> d \<and> d \<le> days_in_month y m)"

fun next_day :: "int \<times> nat \<times> int \<Rightarrow> int \<times> nat \<times> int" where
  "next_day (y, m, d) =
     (if d < days_in_month y m then (y, m, d + 1)
      else if m < 12 then (y, m + 1, 1)
      else (y + 1, 1, 1))"

definition utc_midnight :: "int \<times> nat \<times> int \<Rightarrow> int" where
  "utc_midnight = (\<lambda>(y, m, d). utc_time y m d)"

section \<open>The checksum\<close>

lemma sum_loop_digits:
  assumes "map to_number xs = map Fin vs"
  shows "sum_loop xs i (Fin s) = Fin (s + (\<Sum>k = i ..< length xs. int ((k mod 8) + 2) * (vs ! k)))"
  using assms
proof (induction xs i "Fin s" arbitrary: s rule: sum_loop.induct)
  case (1 digits i)
  have len: "length vs = length digits"
    using "1.prems" by (metis length_map)
  show ?case
  proof (cases "i < length digits")
    case True
    have tn: "to_number (digits ! i) = Fin (vs ! i)"
      using "1.prems" True len by (metis nth_map)
    have step: "sum_loop digits i (Fin s) = sum_loop digits (i + 1) (Fin (s + int ((i mod 8) + 2) * (vs ! i)))"
      using True tn by (subst sum_loop.simps) simp
    have "sum_loop digits (i + 1) (Fin (s + int ((i mod 8) + 2) * (vs ! i)))
        = Fin ((s + int ((i mod 8) + 2) * (vs ! i)) + (\<Sum>k = i + 1 ..< length digits. int ((k mod 8) + 2) * (vs ! k)))"
      using "1.hyps"[OF True _ "1.prems"] tn by simp
    then show ?thesis
      using step True by (simp add: sum.atLeast_Suc_lessThan add.assoc)
  next
    case False
    then show ?thesis by (subst sum_loop.simps) simp
  qed
qed

lemma final_digit:
  assumes "0 \<le> s"
  shows "js_or (js_rem (js_sub (Fin 11) (js_rem (Fin s) (Fin 11))) (Fin 10)) (Fin 1)
       = Fin (let v = (11 - (s mod 11)) mod 10 in if v = 0 then 1 else v)"
proof -
  have a: "sgn s * (\<bar>s\<bar> mod 11) = s mod 11"
    using assms by (cases "s = 0") (simp_all add: sgn_if)
  have b: "0 < 11 - s mod 11" 
    using pos_mod_bound[of 11 s] by linarith
  then have c: "sgn (11 - s mod 11) * (\<bar>11 - s mod 11\<bar> mod 10) = (11 - s mod 11) mod 10"
    by (simp add: sgn_if)
  show ?thesis
    by (simp add: a c js_or_def Let_def)
qed

lemma modulo11_never_zero: "fst (modulo11 arg h) \<noteq> Fin 0 \<and> fst (modulo11 arg h) \<noteq> NaN"
  by (simp add: modulo11_def js_or_def Let_def split: prod.splits)

lemma modulo11Digit_spec_range: "1 \<le> modulo11Digit_spec ds \<and> modulo11Digit_spec ds \<le> 9"
proof -
  define v where "v = (11 - ((\<Sum>i < length (rev ds). (rev ds ! i) * int ((i mod 8) + 2)) mod 11)) mod 10"
  have "0 \<le> v \<and> v < 10" unfolding v_def by simp
  moreover have "modulo11Digit_spec ds = (if v = 0 then 1 else v)"
    unfolding modulo11Digit_spec_def v_def Let_def by simp
  ultimately show ?thesis by auto
qed

lemma weighted_sum_nonneg:
  assumes "\<forall>d \<in> set vs. (0::int) \<le> d"
  shows "0 \<le> (\<Sum>k = 0 ..< length vs. int ((k mod 8) + 2) * (vs ! k))"
  using assms by (intro sum_nonneg mult_nonneg_nonneg) auto

lemma modulo11_array_value:
  assumes conv: "map to_number (arrays h a) = map Fin ds"
    and nonneg: "\<forall>d \<in> set ds. 0 \<le> d"
  shows "fst (modulo11 (JArray a) h) = Fin (modulo11Digit_spec ds)"
proof -
  let ?r = "rev ds"
  let ?s = "\<Sum>k = 0 ..< length ?r. int ((k mod 8) + 2) * (?r ! k)"
  have len: "length (arrays h a) = length ds"
    using conv by (metis length_map)
  have "map to_number (rev (arrays h a)) = map Fin ?r"
    using conv by (simp add: rev_map [symmetric])
  then have loop: "sum_loop (rev (arrays h a)) 0 (Fin 0) = Fin ?s"
    using sum_loop_digits [of "rev (arrays h a)" ?r 0 0] len by simp
  have pos: "0 \<le> ?s"
    using nonneg weighted_sum_nonneg [of ?r] by simp
  have spec: "modulo11Digit_spec ds = (let v = (11 - (?s mod 11)) mod 10 in if v = 0 then 1 else v)"
    by (simp add: modulo11Digit_spec_def Let_def atLeast0LessThan mult.commute)
  show ?thesis
    using final_digit [OF pos] loop spec
    by (simp add: modulo11_def array_reverse_def Let_def)
qed

lemma modulo11_string_value:
  assumes "list_all is_digit s"
  shows "fst (modulo11 (JString s) h) = Fin (modulo11Digit_spec (map (\<lambda>c. int (digit_val c)) s))"
proof -
  obtain a h1 where sp: "split_chars s h = (a, h1)"
    by (cases "split_chars s h")
  then have arr: "arrays h1 a = map Chr s"
    by (auto simp: split_chars_def alloc_def)
  have "map to_number (arrays h1 a) = map Fin (map (\<lambda>c. int (digit_val c)) s)"
    using assms by (simp add: arr list_all_iff)
  then have "fst (modulo11 (JArray a) h1) = Fin (modulo11Digit_spec (map (\<lambda>c. int (digit_val c)) s))"
    by (rule modulo11_array_value) simp
  moreover have "fst (modulo11 (JString s) h) = fst (modulo11 (JArray a) h1)"
    by (simp add: modulo11_def sp)
  ultimately show ?thesis by simp
qed

lemma modulo11_array_store:
  "snd (modulo11 (JArray a) h) = h\<lparr>arrays := (arrays h)(a := rev (arrays h a))\<rparr>"
  by (simp add: modulo11_def array_reverse_def Let_def)

lemma modulo11_string_store:
  "a < next_addr h \<Longrightarrow> arrays (snd (modulo11 (JString s) h)) a = arrays h a"
  by (simp add: modulo11_def split_chars_def alloc_def array_reverse_def Let_def)

lemma digit_char_of: "n \<le> 9 \<Longrightarrow> is_digit (char_of (48 + n)) \<and> digit_val (char_of (48 + n)) = n"
  by (simp add: is_digit_def digit_val_def)

text \<open>
  Claim C1. For a sequence \<open>ds\<close> of single-digit integers, \<^verbatim>\<open>modulo11\<close> returns the
  value the specification describes (reverse, weights \<open>(i mod 8) + 2\<close>, sum,
  \<open>(11 - (sum mod 11)) mod 10\<close>, 1 for 0), whether the digits come as an array of numbers
  or as a string of digit characters; the value is never 0. The sequence may be empty.
\<close>

theorem modulo11_refines_spec:
  assumes digits: "\<forall>d \<in> set ds. 0 \<le> d \<and> d \<le> 9"
    and arr: "arrays h a = map (\<lambda>d. Num (Fin d)) ds"
  shows "fst (modulo11 (JArray a) h) = Fin (modulo11Digit_spec ds)
       \<and> fst (modulo11 (JString (map (\<lambda>d. char_of (48 + nat d)) ds)) h) = Fin (modulo11Digit_spec ds)
       \<and> modulo11Digit_spec ds \<noteq> 0
       \<and> fst (modulo11 (JArray a) h) \<noteq> Fin 0"
proof -
  have "map to_number (arrays h a) = map Fin ds"
    by (simp add: arr comp_def)
  then have A: "fst (modulo11 (JArray a) h) = Fin (modulo11Digit_spec ds)"
    using digits by (intro modulo11_array_value) auto
  let ?s = "map (\<lambda>d. char_of (48 + nat d)) ds"
  have dig: "list_all is_digit ?s"
    using digits by (auto simp: list_all_iff digit_char_of)
  have "map (\<lambda>c. int (digit_val c)) ?s = ds"
    using digits by (induction ds) (auto simp: digit_char_of)
  then have B: "fst (modulo11 (JString ?s) h) = Fin (modulo11Digit_spec ds)"
    using modulo11_string_value [OF dig, of h] by simp
  have C: "modulo11Digit_spec ds \<noteq> 0"
    using modulo11Digit_spec_range [of ds] by linarith
  have D: "fst (modulo11 (JArray a) h) \<noteq> Fin 0"
    using modulo11_never_zero [of "JArray a" h] by simp
  show ?thesis using A B C D by simp
qed

theorem modulo11_refines_spec_witness:
  "fst (modulo11 (JArray 0) (one_array (map (\<lambda>d. Num (Fin d)) [1, 2, 3, 4, 5, 6, 7, 8, 9]))) = Fin 7
   \<and> fst (modulo11 (JString ''123456789'') (one_array (map (\<lambda>d. Num (Fin d)) [1, 2, 3, 4, 5, 6, 7, 8, 9]))) = Fin 7
   \<and> modulo11Digit_spec [1, 2, 3, 4, 5, 6, 7, 8, 9] = 7
   \<and> fst (modulo11 (JArray 0) (one_array (map (\<lambda>d. Num (Fin d)) [6]))) = Fin 1"
proof -
  let ?ds = "[1, 2, 3, 4, 5, 6, 7, 8, 9] :: int list"
  let ?h = "one_array (map (\<lambda>d. Num (Fin d)) ?ds)"
  let ?k = "one_array (map (\<lambda>d. Num (Fin d)) [6])"
  have s9: "modulo11Digit_spec ?ds = 7" by code_simp
  have s1: "modulo11Digit_spec [6] = 1" by code_simp
  have str: "map (\<lambda>d. char_of (48 + nat d)) ?ds = ''123456789''"
    by code_simp
  have d9: "\<forall>d \<in> set ?ds. 0 \<le> d \<and> d \<le> 9" by simp
  have a9: "arrays ?h 0 = map (\<lambda>d. Num (Fin d)) ?ds"
    by (simp add: one_array_def alloc_def empty_heap_def)
  have d1: "\<forall>d \<in> set [6::int]. 0 \<le> d \<and> d \<le> 9" by simp
  have a1: "arrays ?k 0 = map (\<lambda>d. Num (Fin d)) [6]"
    by (simp add: one_array_def alloc_def empty_heap_def)
  show ?thesis
    using modulo11_refines_spec [OF d9 a9] modulo11_refines_spec [OF d1 a1]
    unfolding str s9 s1 by blast
qed

text \<open>
  Claim C10. On the empty string and on an empty array \<^verbatim>\<open>modulo11\<close> returns 1, which
  is \<open>(11 - (0 mod 11)) mod 10\<close>; the model has no failing branch, and the empty array
  is still empty after the call.
\<close>

theorem modulo11_empty_input:
  "fst (modulo11 (JString '''') h) = Fin 1
   \<and> (arrays h a = [] \<longrightarrow> fst (modulo11 (JArray a) h) = Fin 1 \<and> arrays (snd (modulo11 (JArray a) h)) a = [])
   \<and> (11 - (0 mod 11)) mod 10 = (1::int)"
proof -
  have l: "sum_loop [] 0 (Fin 0) = Fin 0"
    by (subst sum_loop.simps) simp
  show ?thesis
    by (simp add: modulo11_def split_chars_def alloc_def array_reverse_def Let_def l js_or_def)
qed

theorem modulo11_empty_input_witness:
  "fst (modulo11 (JString '''') empty_heap) = Fin 1 \<and> arrays empty_heap 0 = []
   \<and> fst (modulo11 (JArray 0) empty_heap) = Fin 1"
  using modulo11_empty_input [of empty_heap 0] by (simp add: empty_heap_def)

text \<open>
  Claim C9. Called with an array, \<^verbatim>\<open>modulo11\<close> reverses the caller's array in place:
  after the call on the array \<open>[1, 2]\<close> the caller holds \<open>[2, 1]\<close>, and a second call
  on the same array returns 3 where the first returned 4.
\<close>

theorem modulo11_reverses_callers_array:
  "(let (a, h) = alloc [Num (Fin 1), Num (Fin 2)] empty_heap;
        (r, h') = modulo11 (JArray a) h;
        (r', h'') = modulo11 (JArray a) h'
    in arrays h a = [Num (Fin 1), Num (Fin 2)]
       \<and> r = Fin 4
       \<and> arrays h' a = [Num (Fin 2), Num (Fin 1)]
       \<and> r' = Fin 3)"
  by code_simp

section \<open>The fixed-width transformations\<close>

lemma list_all_take: "list_all P xs \<Longrightarrow> list_all P (take n xs)"
  by (auto simp: list_all_iff dest: in_set_takeD)

lemma list_all_drop: "list_all P xs \<Longrightarrow> list_all P (drop n xs)"
  by (auto simp: list_all_iff dest: in_set_dropD)

lemma barcode_of_47_digits:
  assumes "length s = 47" "list_all is_digit s"
  shows "barcode \<lparr>bankSlipNumber = s\<rparr>
       = take 4 s @ take 15 (drop 32 s) @ take 5 (drop 4 s) @ take 10 (drop 10 s) @ take 10 (drop 21 s)"
  using assms
  by (simp add: barcode_def replace_anchored_def list_all_take list_all_drop)

lemma prettyNumber_of_47_digits:
  assumes "length s = 47" "list_all is_digit s"
  shows "prettyNumber \<lparr>bankSlipNumber = s\<rparr>
       = take 5 s @ ''.'' @ take 5 (drop 5 s) @ '' '' @ take 5 (drop 10 s) @ ''.''
         @ take 6 (drop 15 s) @ '' '' @ take 5 (drop 21 s) @ ''.'' @ take 6 (drop 26 s)
         @ '' '' @ take 1 (drop 32 s) @ '' '' @ take 14 (drop 33 s)"
  using assms
  by (simp add: prettyNumber_def replace_anchored_def list_all_take list_all_drop)


lemma take_drop_chain: "take n (drop k s) @ drop (n + k) s = drop k s"
  by (metis append_take_drop_id drop_drop)

lemma digit_not_separator: "is_digit c \<Longrightarrow> \<not> is_separator c"
  by (auto simp: is_digit_def is_separator_def)

lemma filter_separator_digits: "list_all is_digit xs \<Longrightarrow> filter is_separator xs = []"
  by (induction xs) (auto simp: digit_not_separator)

lemma filter_not_separator_digits:
  "list_all is_digit xs \<Longrightarrow> filter (\<lambda>c. \<not> is_separator c) xs = xs"
  by (induction xs) (auto simp: digit_not_separator)

lemma filter_digit_digits: "list_all is_digit xs \<Longrightarrow> filter is_digit xs = xs"
  by (induction xs) auto

lemma mask_digits:
  "list_all is_digit xs \<Longrightarrow> map (\<lambda>c. if is_digit c then CHR ''N'' else c) xs = replicate (length xs) (CHR ''N'')"
  by (induction xs) auto

lemma groups_of_47:
  assumes "length s = 47"
  shows "take 5 s @ take 5 (drop 5 s) @ take 5 (drop 10 s) @ take 6 (drop 15 s)
         @ take 5 (drop 21 s) @ take 6 (drop 26 s) @ take 1 (drop 32 s) @ take 14 (drop 33 s) = s"
proof -
  have "take 14 (drop 33 s) = drop 33 s" using assms by simp
  moreover have "take 1 (drop 32 s) @ drop 33 s = drop 32 s" using take_drop_chain [of 1 32 s] by simp
  moreover have "take 6 (drop 26 s) @ drop 32 s = drop 26 s" using take_drop_chain [of 6 26 s] by simp
  moreover have "take 5 (drop 21 s) @ drop 26 s = drop 21 s" using take_drop_chain [of 5 21 s] by simp
  moreover have "take 6 (drop 15 s) @ drop 21 s = drop 15 s" using take_drop_chain [of 6 15 s] by simp
  moreover have "take 5 (drop 10 s) @ drop 15 s = drop 10 s" using take_drop_chain [of 5 10 s] by simp
  moreover have "take 5 (drop 5 s) @ drop 10 s = drop 5 s" using take_drop_chain [of 5 5 s] by simp
  moreover have "take 5 s @ drop 5 s = s" by simp
  ultimately show ?thesis by simp
qed

text \<open>
  Claim C2, as the code has it. For a 47-digit bank slip number, \<^verbatim>\<open>barcode()\<close> reads the
  groups A (4 digits), B (5 digits), one skipped digit, C (10 digits), one skipped digit,
  D (10 digits), one skipped digit and E (15 digits), and returns the 44 digits
  A + E + B + C + D. No digit is skipped between A and B.
\<close>

theorem barcode_regroups_printed_number:
  assumes "length (bankSlipNumber this) = 47" and "list_all is_digit (bankSlipNumber this)"
  shows "barcode this
           = substr (bankSlipNumber this) 0 4 @ substr (bankSlipNumber this) 32 15
             @ substr (bankSlipNumber this) 4 5 @ substr (bankSlipNumber this) 10 10
             @ substr (bankSlipNumber this) 21 10
         \<and> length (barcode this) = 44 \<and> list_all is_digit (barcode this)"
proof -
  let ?s = "bankSlipNumber this"
  have "barcode this = barcode \<lparr>bankSlipNumber = ?s\<rparr>"
    by (simp add: barcode_def)
  then have eq: "barcode this = take 4 ?s @ take 15 (drop 32 ?s) @ take 5 (drop 4 ?s)
      @ take 10 (drop 10 ?s) @ take 10 (drop 21 ?s)"
    using barcode_of_47_digits [OF assms] by simp
  have len: "length (barcode this) = 44"
    unfolding eq using assms(1) by simp
  have dig: "list_all is_digit (barcode this)"
    unfolding eq using assms(2) by (simp add: list_all_take list_all_drop)
  have eq': "barcode this
           = substr ?s 0 4 @ substr ?s 32 15 @ substr ?s 4 5 @ substr ?s 10 10 @ substr ?s 21 10"
    using eq by (simp add: substr_def)
  show ?thesis using eq' len dig by blast
qed

theorem barcode_regroups_printed_number_witness:
  "length example_number = 47 \<and> list_all is_digit example_number
   \<and> barcode \<lparr>bankSlipNumber = example_number\<rparr> = ''34195844100000020005000001233203186422147000''"
proof -
  have l: "length (bankSlipNumber \<lparr>bankSlipNumber = example_number\<rparr>) = 47"
    by (simp add: example_number_def)
  have d: "list_all is_digit (bankSlipNumber \<lparr>bankSlipNumber = example_number\<rparr>)"
    by (simp add: example_number_def is_digit_def)
  show ?thesis
    using barcode_regroups_printed_number [OF l d] l d
    by (simp add: substr_def example_number_def)
qed

text \<open>
  Claim C2 as worded fails: with a digit skipped after A the widths add up to 48, the
  group E is cut short, and on the example number the result has 43 digits and
  differs from what \<^verbatim>\<open>barcode()\<close> returns.
\<close>

theorem toBarcode_claimed_counterexample:
  "length example_number = 47 \<and> list_all is_digit example_number
   \<and> barcode \<lparr>bankSlipNumber = example_number\<rparr> \<noteq> toBarcode_claimed example_number
   \<and> length (toBarcode_claimed example_number) \<noteq> 44"
  by (simp add: example_number_def is_digit_def toBarcode_claimed_def substr_def
      barcode_def replace_anchored_def)

text \<open>
  Claim C6. For a 47-digit bank slip number, \<^verbatim>\<open>prettyNumber()\<close> joins the groups of
  widths 5, 5, 5, 6, 5, 6, 1 and 14 with a point, a space, a point, a space, a point, a
  space and a space; with every digit written N the result is the mask of the claim.
\<close>

theorem prettyNumber_groups_and_mask:
  assumes "length (bankSlipNumber this) = 47" and "list_all is_digit (bankSlipNumber this)"
  shows "prettyNumber this
           = substr (bankSlipNumber this) 0 5 @ ''.'' @ substr (bankSlipNumber this) 5 5 @ '' ''
             @ substr (bankSlipNumber this) 10 5 @ ''.'' @ substr (bankSlipNumber this) 15 6 @ '' ''
             @ substr (bankSlipNumber this) 21 5 @ ''.'' @ substr (bankSlipNumber this) 26 6 @ '' ''
             @ substr (bankSlipNumber this) 32 1 @ '' '' @ substr (bankSlipNumber this) 33 14
         \<and> map (\<lambda>c. if is_digit c then CHR ''N'' else c) (prettyNumber this)
           = ''NNNNN.NNNNN NNNNN.NNNNNN NNNNN.NNNNNN N NNNNNNNNNNNNNN''"
proof -
  let ?s = "bankSlipNumber this"
  have "prettyNumber this = prettyNumber \<lparr>bankSlipNumber = ?s\<rparr>"
    by (simp add: prettyNumber_def)
  then have eq: "prettyNumber this = take 5 ?s @ ''.'' @ take 5 (drop 5 ?s) @ '' '' @ take 5 (drop 10 ?s) @ ''.''
         @ take 6 (drop 15 ?s) @ '' '' @ take 5 (drop 21 ?s) @ ''.'' @ take 6 (drop 26 ?s)
         @ '' '' @ take 1 (drop 32 ?s) @ '' '' @ take 14 (drop 33 ?s)"
    using prettyNumber_of_47_digits [OF assms] by simp
  have nd: "\<not> is_digit (CHR ''.'')" "\<not> is_digit (CHR '' '')"
    by (simp_all add: is_digit_def)
  have r5: "replicate 5 (CHR ''N'') = ''NNNNN''" by code_simp
  have r6: "replicate 6 (CHR ''N'') = ''NNNNNN''" by code_simp
  have r1: "replicate (Suc 0) (CHR ''N'') = ''N''" by simp
  have r14: "replicate 14 (CHR ''N'') = ''NNNNNNNNNNNNNN''" by code_simp
  have mask: "map (\<lambda>c. if is_digit c then CHR ''N'' else c) (prettyNumber this)
           = ''NNNNN.NNNNN NNNNN.NNNNNN NNNNN.NNNNNN N NNNNNNNNNNNNNN''"
    unfolding eq using assms
    by (simp add: mask_digits list_all_take list_all_drop nd r5 r6 r1 r14 del: replicate_Suc)
  have eq': "prettyNumber this
           = substr ?s 0 5 @ ''.'' @ substr ?s 5 5 @ '' '' @ substr ?s 10 5 @ ''.''
             @ substr ?s 15 6 @ '' '' @ substr ?s 21 5 @ ''.'' @ substr ?s 26 6 @ '' ''
             @ substr ?s 32 1 @ '' '' @ substr ?s 33 14"
    using eq by (simp add: substr_def)
  show ?thesis using eq' mask by blast
qed

theorem prettyNumber_groups_and_mask_witness:
  "length example_number = 47 \<and> list_all is_digit example_number
   \<and> prettyNumber \<lparr>bankSlipNumber = example_number\<rparr> = ''34195.00008 01233.203189 64221.470004 5 84410000002000''"
proof -
  have l: "length (bankSlipNumber \<lparr>bankSlipNumber = example_number\<rparr>) = 47"
    by (simp add: example_number_def)
  have d: "list_all is_digit (bankSlipNumber \<lparr>bankSlipNumber = example_number\<rparr>)"
    by (simp add: example_number_def is_digit_def)
  show ?thesis
    using prettyNumber_groups_and_mask [OF l d] l d
    by (simp add: substr_def example_number_def)
qed

text \<open>
  Claim C5, as the code has it. For a 47-digit bank slip number the pretty-printed
  number has length 47 + the number of its separators (there are 7, so 54), and
  stripping the separators (or every non-digit, as the constructor does) gives the
  47 digits back.
\<close>

theorem prettyNumber_length_and_round_trip:
  assumes "length (bankSlipNumber this) = 47" and "list_all is_digit (bankSlipNumber this)"
  shows "length (prettyNumber this) = 47 + length (filter is_separator (prettyNumber this))
         \<and> length (filter is_separator (prettyNumber this)) = 7
         \<and> filter (\<lambda>c. \<not> is_separator c) (prettyNumber this) = bankSlipNumber this
         \<and> strip_non_digits (prettyNumber this) = bankSlipNumber this"
proof -
  let ?s = "bankSlipNumber this"
  have "prettyNumber this = prettyNumber \<lparr>bankSlipNumber = ?s\<rparr>"
    by (simp add: prettyNumber_def)
  then have eq: "prettyNumber this = take 5 ?s @ ''.'' @ take 5 (drop 5 ?s) @ '' '' @ take 5 (drop 10 ?s) @ ''.''
         @ take 6 (drop 15 ?s) @ '' '' @ take 5 (drop 21 ?s) @ ''.'' @ take 6 (drop 26 ?s)
         @ '' '' @ take 1 (drop 32 ?s) @ '' '' @ take 14 (drop 33 ?s)"
    using prettyNumber_of_47_digits [OF assms] by simp
  have nd: "\<not> is_digit (CHR ''.'')" "\<not> is_digit (CHR '' '')"
    by (simp_all add: is_digit_def)
  have sp: "is_separator (CHR ''.'')" "is_separator (CHR '' '')"
    by (simp_all add: is_separator_def)
  have seps: "filter is_separator (prettyNumber this) = ''. . .  ''"
    unfolding eq using assms(2)
    by (simp add: filter_separator_digits list_all_take list_all_drop sp)
  have len: "length (prettyNumber this) = 54"
    unfolding eq using assms(1) by simp
  have rt: "filter (\<lambda>c. \<not> is_separator c) (prettyNumber this) = ?s"
    unfolding eq using assms(2) groups_of_47 [OF assms(1)]
    by (simp add: filter_not_separator_digits list_all_take list_all_drop sp)
  have strip: "strip_non_digits (prettyNumber this) = ?s"
    unfolding eq strip_non_digits_def using assms(2) groups_of_47 [OF assms(1)]
    by (simp add: filter_digit_digits list_all_take list_all_drop nd)
  show ?thesis using seps len rt strip by simp
qed

theorem prettyNumber_length_and_round_trip_witness:
  "length example_number = 47 \<and> list_all is_digit example_number
   \<and> length (prettyNumber \<lparr>bankSlipNumber = example_number\<rparr>) = 54
   \<and> strip_non_digits (prettyNumber \<lparr>bankSlipNumber = example_number\<rparr>) = example_number"
proof -
  have l: "length (bankSlipNumber \<lparr>bankSlipNumber = example_number\<rparr>) = 47"
    by (simp add: example_number_def)
  have d: "list_all is_digit (bankSlipNumber \<lparr>bankSlipNumber = example_number\<rparr>)"
    by (simp add: example_number_def is_digit_def)
  show ?thesis
    using prettyNumber_length_and_round_trip [OF l d] l d
    by simp
qed

text \<open>
  Claim C5 as worded fails: on the example number the pretty-printed length is
  54, not 46 + 7.
\<close>

theorem prettyNumber_length_46_counterexample:
  "length example_number = 47 \<and> list_all is_digit example_number
   \<and> length (prettyNumber \<lparr>bankSlipNumber = example_number\<rparr>)
       \<noteq> 46 + length (filter is_separator (prettyNumber \<lparr>bankSlipNumber = example_number\<rparr>))"
  by (simp add: example_number_def is_digit_def is_separator_def prettyNumber_def replace_anchored_def)

section \<open>Validation and construction\<close>

lemma modulo11_array_as_string:
  "arrays h a = map Chr s \<Longrightarrow> fst (modulo11 (JArray a) h) = fst (modulo11 (JString s) h')"
  by (simp add: modulo11_def split_chars_def alloc_def array_reverse_def Let_def)

lemma modulo11_value_any_store:
  "fst (modulo11 (JString s) h) = fst (modulo11 (JString s) h')"
  by (simp add: modulo11_def split_chars_def alloc_def array_reverse_def Let_def)

lemma barcode_length_gt_4:
  assumes "length (bankSlipNumber this) = 47"
  shows "4 < length (barcode this)"
proof (cases "match_pieces [Cap 4, Cap 5, Skip 1, Cap 10, Skip 1, Cap 10, Skip 1, Cap 15] (bankSlipNumber this)")
  case None
  then show ?thesis using assms by (simp add: barcode_def replace_anchored_def)
next
  case (Some gs)
  then show ?thesis using assms
    by (auto simp: barcode_def replace_anchored_def split: if_splits option.splits)
qed

lemma take_one_drop: "n < length xs \<Longrightarrow> take (Suc 0) (drop n xs) = [xs ! n]"
  by (metis Cons_nth_drop_Suc take0 take_Suc_Cons)

lemma valid_47:
  assumes "length (bankSlipNumber this) = 47"
  shows "fst (valid this h)
       = (number_to_string (fst (modulo11 (JString (take 4 (barcode this) @ drop 5 (barcode this))) h))
          = [barcode this ! 4])"
proof -
  let ?bc = "barcode this"
  let ?a = "next_addr h"
  have gt: "4 < length ?bc" using assms by (rule barcode_length_gt_4)
  obtain h1 where h1: "split_chars ?bc h = (?a, h1)"
    and a1: "arrays h1 ?a = map Chr ?bc" and n1: "next_addr h1 = Suc ?a"
    by (simp add: split_chars_def alloc_def)
  obtain h2 where h2: "array_splice ?a 4 (Suc 0) h1 = (Suc ?a, h2)"
    and a2: "arrays h2 ?a = map Chr (take 4 ?bc @ drop 5 ?bc)"
    and c2: "arrays h2 (Suc ?a) = [Chr (?bc ! 4)]"
    using a1 n1 gt
    by (simp add: array_splice_def alloc_def Let_def take_map drop_map take_one_drop)
  obtain m h3 where h3: "modulo11 (JArray ?a) h2 = (m, h3)"
    by (cases "modulo11 (JArray ?a) h2")
  have m: "m = fst (modulo11 (JString (take 4 ?bc @ drop 5 ?bc)) h)"
    using modulo11_array_as_string [OF a2, of h] h3 by simp
  have "h3 = snd (modulo11 (JArray ?a) h2)" using h3 by simp
  then have c3: "arrays h3 (Suc ?a) = [Chr (?bc ! 4)]"
    using c2 by (simp add: modulo11_def array_reverse_def Let_def)
  have "fst (valid this h) = (number_to_string m = array_to_string (Suc ?a) h3)"
    using assms by (simp add: valid_def h1 h2 h3)
  then show ?thesis
    by (simp add: m c3 array_to_string_def)
qed

lemma valid_not_47: "length (bankSlipNumber this) \<noteq> 47 \<Longrightarrow> valid this h = (False, h)"
  by (simp add: valid_def)

lemma valid_keeps_arrays:
  "a < next_addr h \<Longrightarrow> arrays (snd (valid this h)) a = arrays h a"
  by (simp add: valid_def split_chars_def array_splice_def alloc_def modulo11_def
      array_reverse_def Let_def)

lemma valid_any_store: "fst (valid this h) = fst (valid this h')"
proof (cases "length (bankSlipNumber this) = 47")
  case True
  then show ?thesis
    using valid_47 [of this h] valid_47 [of this h']
      modulo11_value_any_store [of "take 4 (barcode this) @ drop 5 (barcode this)" h h']
    by simp
next
  case False
  then show ?thesis by (simp add: valid_not_47)
qed

lemma digits_of_nat_small: "n < 10 \<Longrightarrow> digits_of_nat n = [char_of (48 + n)]"
  by (subst digits_of_nat.simps) simp

lemma char_of_digit_eq:
  "is_digit c \<Longrightarrow> n \<le> 9 \<Longrightarrow> (char_of (48 + n) = c) = (n = digit_val c)"
  by (auto simp: is_digit_def digit_val_def char_of_eq_iff take_bit_eq_mod)


lemma barcode_digits_44:
  assumes "length (bankSlipNumber this) = 47" and "list_all is_digit (bankSlipNumber this)"
  shows "length (barcode this) = 44 \<and> list_all is_digit (barcode this)"
proof -
  let ?s = "bankSlipNumber this"
  have "barcode this = barcode \<lparr>bankSlipNumber = ?s\<rparr>"
    by (simp add: barcode_def)
  then have eq: "barcode this = take 4 ?s @ take 15 (drop 32 ?s) @ take 5 (drop 4 ?s)
      @ take 10 (drop 10 ?s) @ take 10 (drop 21 ?s)"
    using barcode_of_47_digits [OF assms] by simp
  have "length (barcode this) = 44"
    unfolding eq using assms(1) by simp
  moreover have "list_all is_digit (barcode this)"
    unfolding eq using assms(2) by (simp add: list_all_take list_all_drop)
  ultimately show ?thesis by simp
qed

lemma list_all_nth: "list_all P xs \<Longrightarrow> n < length xs \<Longrightarrow> P (xs ! n)"
  by (simp add: list_all_length)

lemma valid_digits_iff_spec:
  assumes "list_all is_digit (bankSlipNumber this)"
  shows "fst (valid this h) \<longleftrightarrow>
           length (bankSlipNumber this) = 47
           \<and> modulo11Digit_spec (map (\<lambda>c. int (digit_val c)) (take 4 (barcode this) @ drop 5 (barcode this)))
               = int (digit_val (barcode this ! 4))"
proof (cases "length (bankSlipNumber this) = 47")
  case False
  then show ?thesis by (simp add: valid_not_47)
next
  case True
  let ?bc = "barcode this"
  define v where "v = modulo11Digit_spec (map (\<lambda>c. int (digit_val c)) (take 4 ?bc @ drop 5 ?bc))"
  have bc: "length ?bc = 44" "list_all is_digit ?bc"
    using barcode_digits_44 [OF True assms] by simp_all
  have c4: "is_digit (?bc ! 4)"
    using bc by (simp add: list_all_nth)
  have "list_all is_digit (take 4 ?bc @ drop 5 ?bc)"
    using bc(2) by (simp add: list_all_take list_all_drop)
  then have m: "fst (modulo11 (JString (take 4 ?bc @ drop 5 ?bc)) h) = Fin v"
    unfolding v_def by (rule modulo11_string_value)
  have range: "1 \<le> v \<and> v \<le> 9"
    unfolding v_def by (rule modulo11Digit_spec_range)
  then have small: "nat v < 10" by linarith
  have str: "number_to_string (Fin v) = [char_of (48 + nat v)]"
    using range digits_of_nat_small [OF small] by simp
  have "(char_of (48 + nat v) = ?bc ! 4) = (nat v = digit_val (?bc ! 4))"
    using c4 range by (intro char_of_digit_eq) auto
  also have "\<dots> = (v = int (digit_val (?bc ! 4)))"
    using range by auto
  finally have "([char_of (48 + nat v)] = [?bc ! 4]) = (v = int (digit_val (?bc ! 4)))"
    by simp
  then have "(number_to_string (Fin v) = [?bc ! 4]) = (v = int (digit_val (?bc ! 4)))"
    unfolding str .
  then have "fst (valid this h) = (v = int (digit_val (?bc ! 4)))"
    using valid_47 [OF True, of h] m by simp
  then show ?thesis
    using True unfolding v_def by simp
qed

text \<open>
  Claim C3. For a stored digit string, \<^verbatim>\<open>valid()\<close> returns true exactly when the string
  has length 47 and \<^verbatim>\<open>modulo11\<close> of the barcode without its character at index 4
  equals the digit at index 4. The call leaves every array that existed before it
  unchanged (it assigns no field of the object either), and a second call, made in the
  store the first one left, returns the same result.
\<close>

theorem valid_iff_length_and_checksum:
  assumes "list_all is_digit (bankSlipNumber this)"
  shows "(fst (valid this h) \<longleftrightarrow>
            length (bankSlipNumber this) = 47
            \<and> fst (modulo11 (JString (take 4 (barcode this) @ drop 5 (barcode this))) h)
                = Fin (int (digit_val (barcode this ! 4))))
         \<and> (\<forall>a < next_addr h. arrays (snd (valid this h)) a = arrays h a)
         \<and> fst (valid this (snd (valid this h))) = fst (valid this h)"
proof -
  let ?bc = "barcode this"
  have A: "fst (valid this h) \<longleftrightarrow>
            length (bankSlipNumber this) = 47
            \<and> fst (modulo11 (JString (take 4 ?bc @ drop 5 ?bc)) h) = Fin (int (digit_val (?bc ! 4)))"
  proof (cases "length (bankSlipNumber this) = 47")
    case False
    then show ?thesis by (simp add: valid_not_47)
  next
    case True
    have "list_all is_digit ?bc"
      using barcode_digits_44 [OF True assms] by simp
    then have "list_all is_digit (take 4 ?bc @ drop 5 ?bc)"
      by (simp add: list_all_take list_all_drop)
    then have "fst (modulo11 (JString (take 4 ?bc @ drop 5 ?bc)) h)
        = Fin (modulo11Digit_spec (map (\<lambda>c. int (digit_val c)) (take 4 ?bc @ drop 5 ?bc)))"
      by (rule modulo11_string_value)
    then show ?thesis
      using valid_digits_iff_spec [OF assms, of h] by simp
  qed
  have B: "\<forall>a < next_addr h. arrays (snd (valid this h)) a = arrays h a"
    by (simp add: valid_keeps_arrays)
  have C: "fst (valid this (snd (valid this h))) = fst (valid this h)"
    by (rule valid_any_store)
  show ?thesis using A B C by blast
qed

theorem valid_iff_length_and_checksum_witness:
  "list_all is_digit (bankSlipNumber \<lparr>bankSlipNumber = example_number\<rparr>)
   \<and> fst (valid \<lparr>bankSlipNumber = example_number\<rparr> empty_heap)
   \<and> fst (valid \<lparr>bankSlipNumber = example_number\<rparr>
            (snd (valid \<lparr>bankSlipNumber = example_number\<rparr> empty_heap)))
   \<and> list_all is_digit (bankSlipNumber \<lparr>bankSlipNumber = replicate 47 (CHR ''0'')\<rparr>)
   \<and> \<not> fst (valid \<lparr>bankSlipNumber = replicate 47 (CHR ''0'')\<rparr> empty_heap)"
proof -
  let ?R = "\<lparr>bankSlipNumber = example_number\<rparr>"
  let ?Z = "\<lparr>bankSlipNumber = replicate 47 (CHR ''0'')\<rparr>"
  have d: "list_all is_digit (bankSlipNumber ?R)" by code_simp
  have l: "length (bankSlipNumber ?R) = 47" by code_simp
  have m: "fst (modulo11 (JString (take 4 (barcode ?R) @ drop 5 (barcode ?R))) empty_heap)
             = Fin (int (digit_val (barcode ?R ! 4)))"
    by code_simp
  have dz: "list_all is_digit (bankSlipNumber ?Z)" by code_simp
  have mz: "fst (modulo11 (JString (take 4 (barcode ?Z) @ drop 5 (barcode ?Z))) empty_heap)
             \<noteq> Fin (int (digit_val (barcode ?Z ! 4)))"
    by code_simp
  show ?thesis
    using valid_iff_length_and_checksum [OF d, of empty_heap]
      valid_iff_length_and_checksum [OF dz, of empty_heap] d l m dz mz
    by blast
qed

lemma new_Boleto_result:
  "fst (new_Boleto input h)
     = (if fst (valid \<lparr>bankSlipNumber = strip_non_digits input\<rparr> h)
        then Inr \<lparr>bankSlipNumber = strip_non_digits input\<rparr>
        else Inl (Error ''Invalid bank slip number''))"
  by (simp add: new_Boleto_def Let_def split: prod.splits)

lemma strip_non_digits_digits: "list_all is_digit (strip_non_digits s)"
  by (simp add: strip_non_digits_def list_all_iff)

lemma strip_non_digits_idem: "strip_non_digits (strip_non_digits s) = strip_non_digits s"
  by (simp add: strip_non_digits_def)

text \<open>
  Claim C4. The constructor keeps the digits \<open>r\<close> of its input and throws
  \<^verbatim>\<open>Error('Invalid bank slip number')\<close> exactly when \<open>r\<close> fails the validation: its length
  is not 47, or the checksum of the barcode without index 4 (in the specification's
  formula) differs from the digit at index 4. Otherwise it returns the object holding
  \<open>r\<close>; the outcome is a thrown error or an object, never both, and it is the same for
  the input and for its digits alone.
\<close>

theorem constructor_throws_iff_invalid:
  "(let r = strip_non_digits input;
        bc = barcode \<lparr>bankSlipNumber = r\<rparr>;
        ok = (length r = 47
              \<and> modulo11Digit_spec (map (\<lambda>c. int (digit_val c)) (take 4 bc @ drop 5 bc))
                  = int (digit_val (bc ! 4)))
    in list_all is_digit r
       \<and> (fst (new_Boleto input h) = Inl (Error ''Invalid bank slip number'') \<longleftrightarrow> \<not> ok)
       \<and> (fst (new_Boleto input h) = Inr \<lparr>bankSlipNumber = r\<rparr> \<longleftrightarrow> ok)
       \<and> fst (new_Boleto input h) = fst (new_Boleto r h))"
proof -
  let ?r = "strip_non_digits input"
  let ?this = "\<lparr>bankSlipNumber = ?r\<rparr>"
  have d: "list_all is_digit (bankSlipNumber ?this)"
    by (simp add: strip_non_digits_digits)
  note v = valid_digits_iff_spec [OF d, of h]
  show ?thesis
    unfolding Let_def new_Boleto_result strip_non_digits_idem
    using v by (simp add: strip_non_digits_digits)
qed


theorem constructor_throws_iff_invalid_witness:
  "fst (new_Boleto ''34195.00008 01233.203189 64221.470004 5 84410000002000'' empty_heap)
     = Inr \<lparr>bankSlipNumber = ''34195000080123320318964221470004584410000002000''\<rparr>
   \<and> fst (new_Boleto ''34195.00008 01233.203189 64221.470004 5 84410000002001'' empty_heap)
     = Inl (Error ''Invalid bank slip number'')
   \<and> fst (new_Boleto ''34195.00008'' empty_heap) = Inl (Error ''Invalid bank slip number'')"
proof -
  let ?i1 = "''34195.00008 01233.203189 64221.470004 5 84410000002000''"
  let ?i2 = "''34195.00008 01233.203189 64221.470004 5 84410000002001''"
  let ?i3 = "''34195.00008''"
  let ?ok = "\<lambda>input. length (strip_non_digits input) = 47
       \<and> modulo11Digit_spec (map (\<lambda>c. int (digit_val c))
            (take 4 (barcode \<lparr>bankSlipNumber = strip_non_digits input\<rparr>)
             @ drop 5 (barcode \<lparr>bankSlipNumber = strip_non_digits input\<rparr>)))
         = int (digit_val (barcode \<lparr>bankSlipNumber = strip_non_digits input\<rparr> ! 4))"
  have r1: "strip_non_digits ?i1 = ''34195000080123320318964221470004584410000002000''"
    by code_simp
  have ok1: "?ok ?i1" by code_simp
  have ok2: "\<not> ?ok ?i2" by code_simp
  have ok3: "\<not> ?ok ?i3" by code_simp
  have A: "fst (new_Boleto ?i1 empty_heap) = Inr \<lparr>bankSlipNumber = strip_non_digits ?i1\<rparr>"
    using constructor_throws_iff_invalid [of ?i1 empty_heap] ok1 unfolding Let_def by blast
  have B: "fst (new_Boleto ?i2 empty_heap) = Inl (Error ''Invalid bank slip number'')"
    using constructor_throws_iff_invalid [of ?i2 empty_heap] ok2 unfolding Let_def by blast
  have C: "fst (new_Boleto ?i3 empty_heap) = Inl (Error ''Invalid bank slip number'')"
    using constructor_throws_iff_invalid [of ?i3 empty_heap] ok3 unfolding Let_def by blast
  show ?thesis using A B C unfolding r1 by blast
qed

section \<open>Currency, amount and due date\<close>

lemma div_step:
  fixes x k :: int
  assumes "0 < k"
  shows "(x + 1) div k = x div k + (if (x + 1) mod k = 0 then 1 else 0)"
proof -
  have r: "0 \<le> x mod k" "x mod k < k"
    using assms by simp_all
  show ?thesis
  proof (cases "x mod k + 1 < k")
    case True
    have e: "x + 1 = k * (x div k) + (x mod k + 1)"
      by simp
    have "(x + 1) div k = x div k"
      using r True by (intro int_div_pos_eq [OF e]) auto
    moreover have "(x + 1) mod k = x mod k + 1"
      using r True by (intro int_mod_pos_eq [OF e]) auto
    ultimately show ?thesis using r by simp
  next
    case False
    then have k: "x mod k + 1 = k" using r by linarith
    have "k * (x div k + 1) = k * (x div k) + k"
      by (simp add: algebra_simps)
    then have e: "x + 1 = k * (x div k + 1) + 0"
      using k mult_div_mod_eq [of k x] by linarith
    have "(x + 1) div k = x div k + 1"
      using assms by (intro int_div_pos_eq [OF e]) auto
    moreover have "(x + 1) mod k = 0"
      using assms by (intro int_mod_pos_eq [OF e]) auto
    ultimately show ?thesis by simp
  qed
qed


lemma mod_shift:
  "(y - 1968) mod 4 = y mod (4::int)"
  "(y - 1900) mod 100 = y mod (100::int)"
  "(y - 1600) mod 400 = y mod (400::int)"
proof -
  have "(y + 4 * (- 492)) mod 4 = y mod 4" by (rule mod_mult_self2)
  then show "(y - 1968) mod 4 = y mod (4::int)" by simp
  have "(y + 100 * (- 19)) mod 100 = y mod 100" by (rule mod_mult_self2)
  then show "(y - 1900) mod 100 = y mod (100::int)" by simp
  have "(y + 400 * (- 4)) mod 400 = y mod 400" by (rule mod_mult_self2)
  then show "(y - 1600) mod 400 = y mod (400::int)" by simp
qed



lemma div4_step: "(y - 1968) div 4 = (y - 1969) div 4 + (if y mod 4 = 0 then 1 else 0)" for y :: int
    using div_step [of 4 "y - 1969"] by (simp add: mod_shift)

lemma mod100_mod4: "y mod 100 = 0 \<Longrightarrow> y mod 4 = 0" for y :: int
    using mod_mod_cancel [of 4 100 y] by simp


lemma div100_step: "(y - 1900) div 100 = (y - 1901) div 100 + (if y mod 100 = 0 then 1 else 0)" for y :: int
    using div_step [of 100 "y - 1901"] by (simp add: mod_shift)

lemma div400_step: "(y - 1600) div 400 = (y - 1601) div 400 + (if y mod 400 = 0 then 1 else 0)" for y :: int
    using div_step [of 400 "y - 1601"] by (simp add: mod_shift)

lemma mod400_mod100: "y mod 400 = 0 \<Longrightarrow> y mod 100 = 0" for y :: int
    using mod_mod_cancel [of 100 400 y] by simp

lemma year_step: "day_from_year (y + 1) = day_from_year y + 365
      + (if y mod 4 = 0 then 1 else 0) - (if y mod 100 = 0 then 1 else 0)
      + (if y mod 400 = 0 then 1 else 0)"
proof -
  have "day_from_year (y + 1) - day_from_year y
      = 365 + ((y - 1968) div 4 - (y - 1969) div 4) - ((y - 1900) div 100 - (y - 1901) div 100)
        + ((y - 1600) div 400 - (y - 1601) div 400)"
    unfolding day_from_year_def by (simp add: algebra_simps)
  also have "(y - 1968) div 4 - (y - 1969) div 4 = (if y mod 4 = 0 then 1 else 0)"
    using div4_step [of y] by linarith
  also have "(y - 1900) div 100 - (y - 1901) div 100 = (if y mod 100 = 0 then 1 else 0)"
    using div100_step [of y] by linarith
  also have "(y - 1600) div 400 - (y - 1601) div 400 = (if y mod 400 = 0 then 1 else 0)"
    using div400_step [of y] by linarith
  finally show ?thesis by linarith
qed

lemma year_length:
  "day_from_year (y + 1) = day_from_year y + (if leap_year y then 366 else 365)"
proof (cases "y mod 4 = 0")
  case False
  then have "y mod 100 \<noteq> 0" "y mod 400 \<noteq> 0"
    using mod100_mod4 [of y] mod400_mod100 [of y] by auto
  then show ?thesis using False year_step [of y] by (simp add: leap_year_def)
next
  case True
  show ?thesis
  proof (cases "y mod 100 = 0")
    case False
    then have "y mod 400 \<noteq> 0" using mod400_mod100 [of y] by auto
    then show ?thesis using True False year_step [of y] by (simp add: leap_year_def)
  next
    case h: True
    show ?thesis using True h year_step [of y] by (simp add: leap_year_def)
  qed
qed

lemma months_upto_12: "[Suc 0 ..< 12] = [1, 2, 3, 4, 5, 6, 7, 8, 9, 10, 11]"
  by code_simp

lemma days_before_december:
  "days_before_month y 12 = (if leap_year y then 335 else 334)"
  by (simp add: days_before_month_def months_upto_12 days_in_month_def)

lemma days_before_next_month:
  "1 \<le> m \<Longrightarrow> days_before_month y (m + 1) = days_before_month y m + days_in_month y m"
  by (simp add: days_before_month_def)

lemma days_in_month_pos: "1 \<le> days_in_month y m"
  by (simp add: days_in_month_def)

lemma next_day_step:
  assumes "valid_date (y, m, d)"
  shows "valid_date (next_day (y, m, d))
         \<and> utc_midnight (next_day (y, m, d)) = utc_midnight (y, m, d) + msPerDay"
proof -
  have m: "1 \<le> m" "m \<le> 12" and d: "1 \<le> d" "d \<le> days_in_month y m"
    using assms by (simp_all add: valid_date_def)
  consider (same) "d < days_in_month y m"
    | (month) "d = days_in_month y m" "m < 12"
    | (year) "d = days_in_month y m" "m = 12"
    using d m by linarith
  then show ?thesis
  proof cases
    case same
    then show ?thesis
      using m d by (simp add: valid_date_def utc_midnight_def utc_time_def algebra_simps)
  next
    case month
    then show ?thesis
      using m days_in_month_pos [of y "m + 1"] days_before_next_month [of m y]
      by (simp add: valid_date_def utc_midnight_def utc_time_def algebra_simps)
  next
    case year
    have "days_before_month (y + 1) 1 = 0"
      by (simp add: days_before_month_def)
    moreover have "days_in_month y 12 = 31"
      by (simp add: days_in_month_def)
    ultimately show ?thesis
      using year days_in_month_pos [of "y + 1" 1] year_length [of y] days_before_december [of y]
      by (simp add: valid_date_def utc_midnight_def utc_time_def algebra_simps)
  qed
qed

lemma next_day_iterate:
  assumes "valid_date date"
  shows "valid_date ((next_day ^^ n) date)
         \<and> utc_midnight ((next_day ^^ n) date) = utc_midnight date + int n * msPerDay"
proof (induction n)
  case 0
  then show ?case using assms by simp
next
  case (Suc n)
  obtain y m d where e: "(next_day ^^ n) date = (y, m, d)"
    by (cases "(next_day ^^ n) date")
  then show ?case
    using Suc next_day_step [of y m d] by (simp add: algebra_simps)
qed


lemma constructed_record:
  assumes "fst (new_Boleto input h) = Inr this"
  shows "length (bankSlipNumber this) = 47 \<and> list_all is_digit (bankSlipNumber this)
         \<and> length (barcode this) = 44 \<and> list_all is_digit (barcode this)"
proof -
  have v: "fst (valid \<lparr>bankSlipNumber = strip_non_digits input\<rparr> h)"
    and eq: "this = \<lparr>bankSlipNumber = strip_non_digits input\<rparr>"
    using assms by (auto simp: new_Boleto_result split: if_splits)
  have d: "list_all is_digit (bankSlipNumber this)"
    by (simp add: eq strip_non_digits_digits)
  have l: "length (bankSlipNumber this) = 47"
    using v valid_not_47 [of this h] eq by fastforce
  show ?thesis
    using l d barcode_digits_44 [OF l d] by simp
qed

lemma digits_of_nat_digits: "list_all is_digit (digits_of_nat n)"
proof (induction n rule: digits_of_nat.induct)
  case (1 n)
  show ?case
  proof (cases "n < 10")
    case True
    then show ?thesis
      by (subst digits_of_nat.simps) (simp add: is_digit_def)
  next
    case False
    have "n mod 10 \<le> 9" by simp
    then have "is_digit (char_of (48 + n mod 10))"
      using digit_char_of by blast
    then show ?thesis
      using False "1.IH" by (subst digits_of_nat.simps) simp
  qed
qed

lemma two_digits_digits: "list_all is_digit (two_digits n)"
proof -
  have "(n div 10) mod 10 \<le> 9" "n mod 10 \<le> 9" by simp_all
  then show ?thesis
    by (simp add: two_digits_def digit_char_of)
qed

lemma point_not_digit: "list_all is_digit xs \<Longrightarrow> CHR ''.'' \<notin> set xs"
  by (auto simp: list_all_iff is_digit_def)

lemma replace_first_point:
  "CHR ''.'' \<notin> set xs \<Longrightarrow> replace_first ''.'' rep (xs @ ''.'' @ ys) = xs @ rep @ ys"
  by (induction xs) auto

lemma map_absent_char: "x \<notin> set xs \<Longrightarrow> map (\<lambda>c. if c = x then y else c) xs = xs"
  by (induction xs) auto

lemma map_point_comma:
  "CHR ''.'' \<notin> set xs \<Longrightarrow> CHR ''.'' \<notin> set ys \<Longrightarrow>
   map (\<lambda>c. if c = CHR ''.'' then CHR '','' else c) (xs @ ''.'' @ ys) = xs @ '','' @ ys"
  by (simp add: map_absent_char)

lemma amount_of_digits:
  assumes "list_all is_digit (barcode this)"
  shows "\<exists>n. amount this = digits_of_nat (n div 100) @ ''.'' @ two_digits (n mod 100)"
proof -
  have "list_all is_digit (substr (barcode this) 9 10)"
    using assms by (simp add: substr_def list_all_take list_all_drop)
  then show ?thesis
    by (auto simp: amount_def string_to_number_def)
qed

text \<open>
  Claim C7. For a constructed bank slip: when the barcode's character at index 3 is 9,
  \<^verbatim>\<open>currency()\<close> is the object with code BRL, symbol R$ and decimal comma, and
  \<^verbatim>\<open>prettyAmount()\<close> is the symbol, a space, and \<^verbatim>\<open>amount()\<close> with its point replaced by
  a comma; for any other digit \<^verbatim>\<open>currency()\<close> is the string \<^verbatim>\<open>'Unknown'\<close> (no error) and
  \<^verbatim>\<open>prettyAmount()\<close> is \<^verbatim>\<open>amount()\<close> itself.
\<close>

theorem currency_and_prettyAmount:
  assumes "fst (new_Boleto input h) = Inr this"
  shows "(barcode this ! 3 = CHR ''9'' \<longrightarrow>
            currency this = CurrencyObject \<lparr>code = ''BRL'', symbol = ''R$'', decimal = '',''\<rparr>
            \<and> prettyAmount this
                = ''R$'' @ '' '' @ map (\<lambda>c. if c = CHR ''.'' then CHR '','' else c) (amount this))
         \<and> (barcode this ! 3 \<noteq> CHR ''9'' \<longrightarrow>
            currency this = CurrencyString ''Unknown'' \<and> prettyAmount this = amount this)"
proof -
  have bc: "length (barcode this) = 44" "list_all is_digit (barcode this)"
    using constructed_record [OF assms] by simp_all
  have c3: "char_at (barcode this) 3 = Some (barcode this ! 3)"
    using bc(1) by (simp add: char_at_def)
  obtain n where am: "amount this = digits_of_nat (n div 100) @ ''.'' @ two_digits (n mod 100)"
    using amount_of_digits [OF bc(2)] by blast
  have p1: "CHR ''.'' \<notin> set (digits_of_nat (n div 100))"
    by (rule point_not_digit) (rule digits_of_nat_digits)
  have p2: "CHR ''.'' \<notin> set (two_digits (n mod 100))"
    by (rule point_not_digit) (rule two_digits_digits)
  have rep: "replace_first ''.'' '','' (amount this)
      = map (\<lambda>c. if c = CHR ''.'' then CHR '','' else c) (amount this)"
    unfolding am using replace_first_point [OF p1] map_point_comma [OF p1 p2] by simp
  show ?thesis
    using c3 rep by (simp add: currency_def prettyAmount_def)
qed

theorem currency_and_prettyAmount_witness:
  "fst (new_Boleto example_number empty_heap) = Inr \<lparr>bankSlipNumber = example_number\<rparr>
   \<and> barcode \<lparr>bankSlipNumber = example_number\<rparr> ! 3 = CHR ''9''
   \<and> currency \<lparr>bankSlipNumber = example_number\<rparr>
       = CurrencyObject \<lparr>code = ''BRL'', symbol = ''R$'', decimal = '',''\<rparr>
   \<and> amount \<lparr>bankSlipNumber = example_number\<rparr> = ''20.00''
   \<and> prettyAmount \<lparr>bankSlipNumber = example_number\<rparr> = ''R$ 20,00''
   \<and> fst (new_Boleto currency_8_number empty_heap) = Inr \<lparr>bankSlipNumber = currency_8_number\<rparr>
   \<and> barcode \<lparr>bankSlipNumber = currency_8_number\<rparr> ! 3 \<noteq> CHR ''9''
   \<and> currency \<lparr>bankSlipNumber = currency_8_number\<rparr> = CurrencyString ''Unknown''
   \<and> prettyAmount \<lparr>bankSlipNumber = currency_8_number\<rparr> = ''20.00''"
proof -
  let ?R = "\<lparr>bankSlipNumber = example_number\<rparr>"
  let ?E = "\<lparr>bankSlipNumber = currency_8_number\<rparr>"
  have cr: "fst (new_Boleto example_number empty_heap) = Inr ?R" by code_simp
  have ce: "fst (new_Boleto currency_8_number empty_heap) = Inr ?E" by code_simp
  have r3: "barcode ?R ! 3 = CHR ''9''" by code_simp
  have e3: "barcode ?E ! 3 \<noteq> CHR ''9''" by code_simp
  have ar: "amount ?R = ''20.00''" by code_simp
  have ae: "amount ?E = ''20.00''" by code_simp
  have mr: "''R$'' @ '' '' @ map (\<lambda>c. if c = CHR ''.'' then CHR '','' else c) ''20.00'' = ''R$ 20,00''"
    by simp
  from currency_and_prettyAmount [OF cr] r3
  have R: "currency ?R = CurrencyObject \<lparr>code = ''BRL'', symbol = ''R$'', decimal = '',''\<rparr>
      \<and> prettyAmount ?R = ''R$ 20,00''"
    unfolding ar mr by blast
  from currency_and_prettyAmount [OF ce] e3
  have E: "currency ?E = CurrencyString ''Unknown'' \<and> prettyAmount ?E = ''20.00''"
    unfolding ae by blast
  show ?thesis using cr ce r3 e3 ar R E by blast
qed


lemma dec_value_snoc: "dec_value (s @ [c]) = 10 * dec_value s + digit_val c"
  by (simp add: dec_value_def)

lemma dec_value_bound: "list_all is_digit s \<Longrightarrow> dec_value s < 10 ^ length s"
proof (induction s rule: rev_induct)
  case Nil
  then show ?case by (simp add: dec_value_def)
next
  case (snoc c s)
  then have "dec_value s < 10 ^ length s" and "digit_val c \<le> 9"
    by (auto simp: is_digit_def digit_val_def)
  then have "10 * dec_value s + digit_val c < 10 * 10 ^ length s"
    by linarith
  then show ?case by (simp add: dec_value_snoc)
qed

lemma refDate_value: "date_parse ''1997-10-07'' = Fin (utc_time 1997 10 7)"
  by code_simp

lemma epoch_value: "utc_time 1997 10 7 = 876182400000"
  by code_simp

text \<open>
  Claim C8. For a constructed bank slip with the four digits \<open>n\<close> at barcode positions
  5 to 8, \<^verbatim>\<open>expirationDate()\<close> holds the time value of midnight UTC of 1997-10-07 plus
  \<open>n\<close> whole days, which is midnight UTC of the calendar date \<open>n\<close> days after 1997-10-07;
  no time zone offset enters. Offset 0000 gives 1997-10-07 and offset 0001 gives
  1997-10-08.
\<close>

theorem expirationDate_is_epoch_plus_days:
  assumes "fst (new_Boleto input h) = Inr this"
  shows "expirationDate this
           = Date (Fin (utc_time 1997 10 7 + int (dec_value (substr (barcode this) 5 4)) * msPerDay))
         \<and> expirationDate this
           = Date (Fin (utc_midnight ((next_day ^^ dec_value (substr (barcode this) 5 4)) (1997, 10, 7))))
         \<and> (substr (barcode this) 5 4 = ''0000'' \<longrightarrow>
              expirationDate this = Date (Fin (utc_time 1997 10 7)))
         \<and> (substr (barcode this) 5 4 = ''0001'' \<longrightarrow>
              expirationDate this = Date (Fin (utc_time 1997 10 8)))"
proof -
  let ?days = "substr (barcode this) 5 4"
  let ?n = "dec_value ?days"
  have bc: "length (barcode this) = 44" "list_all is_digit (barcode this)"
    using constructed_record [OF assms] by simp_all
  have dd: "list_all is_digit ?days"
    using bc(2) by (simp add: substr_def list_all_take list_all_drop)
  have "length ?days = 4"
    using bc(1) by (simp add: substr_def)
  then have "?n < 10 ^ 4"
    using dec_value_bound [OF dd] by simp
  then have small: "int ?n < 10000" by simp
  have t: "js_add (date_parse ''1997-10-07'') (js_mul (string_to_number ?days) (Fin 86400000))
         = Fin (utc_time 1997 10 7 + int ?n * msPerDay)"
    using dd by (simp add: refDate_value string_to_number_def msPerDay_def)
  have "\<bar>utc_time 1997 10 7 + int ?n * msPerDay\<bar> \<le> 8640000000000000"
    using small by (simp add: epoch_value msPerDay_def)
  then have A: "expirationDate this = Date (Fin (utc_time 1997 10 7 + int ?n * msPerDay))"
    using t by (simp add: expirationDate_def time_clip_def Let_def)
  have "valid_date (1997, 10, 7)"
    by (simp add: valid_date_def days_in_month_def)
  then have "utc_midnight ((next_day ^^ ?n) (1997, 10, 7)) = utc_midnight (1997, 10, 7) + int ?n * msPerDay"
    by (rule next_day_iterate [THEN conjunct2])
  moreover have "utc_midnight (1997, 10, 7) = utc_time 1997 10 7"
    by (simp add: utc_midnight_def)
  ultimately have B: "expirationDate this = Date (Fin (utc_midnight ((next_day ^^ ?n) (1997, 10, 7))))"
    using A by (simp only:)
  have z: "dec_value ''0000'' = 0" and o: "dec_value ''0001'' = 1"
    by code_simp+
  have C: "?days = ''0000'' \<longrightarrow> expirationDate this = Date (Fin (utc_time 1997 10 7))"
    using A z by simp
  have "utc_time 1997 10 7 + 1 * msPerDay = utc_time 1997 10 8"
    by (simp add: utc_time_def algebra_simps)
  then have D: "?days = ''0001'' \<longrightarrow> expirationDate this = Date (Fin (utc_time 1997 10 8))"
    using A o by simp
  show ?thesis by (intro conjI A B C D)
qed

theorem expirationDate_is_epoch_plus_days_witness:
  "fst (new_Boleto offset_0000_number empty_heap) = Inr \<lparr>bankSlipNumber = offset_0000_number\<rparr>
   \<and> substr (barcode \<lparr>bankSlipNumber = offset_0000_number\<rparr>) 5 4 = ''0000''
   \<and> expirationDate \<lparr>bankSlipNumber = offset_0000_number\<rparr> = Date (Fin (utc_time 1997 10 7))
   \<and> fst (new_Boleto offset_0001_number empty_heap) = Inr \<lparr>bankSlipNumber = offset_0001_number\<rparr>
   \<and> substr (barcode \<lparr>bankSlipNumber = offset_0001_number\<rparr>) 5 4 = ''0001''
   \<and> expirationDate \<lparr>bankSlipNumber = offset_0001_number\<rparr> = Date (Fin (utc_time 1997 10 8))
   \<and> utc_time 1997 10 7 = 876182400000 \<and> utc_time 1997 10 8 = 876268800000
   \<and> (next_day ^^ 0) (1997, 10, 7) = (1997, 10, 7) \<and> (next_day ^^ 1) (1997, 10, 7) = (1997, 10, 8)"
proof -
  let ?Z = "\<lparr>bankSlipNumber = offset_0000_number\<rparr>"
  let ?O = "\<lparr>bankSlipNumber = offset_0001_number\<rparr>"
  have cz: "fst (new_Boleto offset_0000_number empty_heap) = Inr ?Z" by code_simp
  have co: "fst (new_Boleto offset_0001_number empty_heap) = Inr ?O" by code_simp
  have dz: "substr (barcode ?Z) 5 4 = ''0000''" by code_simp
  have d1: "substr (barcode ?O) 5 4 = ''0001''" by code_simp
  have u7: "utc_time 1997 10 7 = 876182400000" by code_simp
  have u8: "utc_time 1997 10 8 = 876268800000" by code_simp
  have n0: "(next_day ^^ 0) (1997, 10, 7) = (1997, 10, 7)" by simp
  have n1: "(next_day ^^ 1) (1997, 10, 7) = (1997, 10, 8)"
    by (simp add: days_in_month_def)
  have Z: "expirationDate ?Z = Date (Fin (utc_time 1997 10 7))"
    using expirationDate_is_epoch_plus_days [OF cz] dz by (elim conjE) (erule mp)
  have O: "expirationDate ?O = Date (Fin (utc_time 1997 10 8))"
    using expirationDate_is_epoch_plus_days [OF co] d1 by (elim conjE) (erule mp)
  show ?thesis by (intro conjI cz co dz d1 u7 u8 n0 n1 Z O)
qed

end
